theory Spec2Isabelle
  imports Main "HOL-Library.Sublist"
begin

section \<open>The dashboard event bus, its streaming handler and the server start\<close>

text \<open>
  A shallow embedding of \<^verbatim>\<open>src/Research/dashboard.py\<close>: the class \<^verbatim>\<open>EventBus\<close>
  (\<^verbatim>\<open>subscribe\<close>, \<^verbatim>\<open>unsubscribe\<close>, \<^verbatim>\<open>push\<close>), the request routing of
  \<^verbatim>\<open>_DashboardHandler.do_GET\<close>, the delivery loop of \<^verbatim>\<open>_serve_sse\<close> and the
  module function \<^verbatim>\<open>start\<close>. Mutation is explicit state passing; exceptions are values.
\<close>

subsection \<open>Exceptions\<close>

datatype py_error =
    TypeError | ValueError | OverflowError | RuntimeError
  | OSError | BrokenPipeError | ConnectionResetError

text \<open>\<^verbatim>\<open>BrokenPipeError\<close> and \<^verbatim>\<open>ConnectionResetError\<close> are subclasses of \<^verbatim>\<open>OSError\<close>.\<close>

fun isinstance_OSError :: "py_error \<Rightarrow> bool" where
  "isinstance_OSError OSError = True"
| "isinstance_OSError BrokenPipeError = True"
| "isinstance_OSError ConnectionResetError = True"
| "isinstance_OSError _ = False"

subsection \<open>Payloads and \<^verbatim>\<open>json.dumps(data, default=str)\<close>\<close>

text \<open>
  The values a producer can hand to \<^verbatim>\<open>push\<close>. A dictionary is the list of its items in
  insertion order. \<open>PObject s\<close> is an object of any class the JSON encoder does not know
  (a set, a datetime, ...), given by the text \<^verbatim>\<open>str()\<close> returns for it. Strings are
  sequences of code points below 256. Floats are left out (their text is floating point),
  and so are cyclic containers, which a tree cannot hold.
\<close>

datatype pyval =
    PNone
  | PBool bool
  | PInt int
  | PStr string
  | PList "pyval list"
  | PTuple "pyval list"
  | PDict "(pyval \<times> pyval) list"
  | PObject string

definition digit_char :: "nat \<Rightarrow> char" where
  "digit_char d = char_of (48 + d)"

fun nat_repr :: "nat \<Rightarrow> string" where
  "nat_repr n = (if n < 10 then [digit_char n] else nat_repr (n div 10) @ [digit_char (n mod 10)])"

declare nat_repr.simps [simp del]

definition int_repr :: "int \<Rightarrow> string" where
  "int_repr i = (if i < 0 then CHR ''-'' # nat_repr (nat (- i)) else nat_repr (nat i))"

definition hex_char :: "nat \<Rightarrow> char" where
  "hex_char d = (if d < 10 then char_of (48 + d) else char_of (87 + d))"

text \<open>One character under \<^verbatim>\<open>ensure_ascii=True\<close> (the default).\<close>

definition escape_char :: "char \<Rightarrow> string" where
  "escape_char c =
     (let n = (of_char c :: nat) in
      if n = 34 then [CHR 0x5C, CHR 0x22]
      else if n = 92 then [CHR 0x5C, CHR 0x5C]
      else if n = 10 then [CHR 0x5C, CHR ''n'']
      else if n = 13 then [CHR 0x5C, CHR ''r'']
      else if n = 9 then [CHR 0x5C, CHR ''t'']
      else if n = 8 then [CHR 0x5C, CHR ''b'']
      else if n = 12 then [CHR 0x5C, CHR ''f'']
      else if 32 \<le> n \<and> n \<le> 126 then [c]
      else [CHR 0x5C, CHR ''u'', CHR ''0'', CHR ''0'', hex_char (n div 16), hex_char (n mod 16)])"

definition encode_str :: "string \<Rightarrow> string" where
  "encode_str s = [CHR 0x22] @ concat (map escape_char s) @ [CHR 0x22]"

fun join :: "string \<Rightarrow> string list \<Rightarrow> string" where
  "join sep [] = []"
| "join sep [s] = s"
| "join sep (s # t # ss) = s @ sep @ join sep (t # ss)"

text \<open>
  A dictionary key must be \<^verbatim>\<open>str\<close>, \<^verbatim>\<open>int\<close>, \<^verbatim>\<open>bool\<close> or \<^verbatim>\<open>None\<close>; \<^verbatim>\<open>default\<close> is
  not consulted for keys, and \<^verbatim>\<open>skipkeys\<close> is off, so any other key raises \<^verbatim>\<open>TypeError\<close>.
\<close>

fun key_str :: "pyval \<Rightarrow> string option" where
  "key_str (PStr s) = Some s"
| "key_str (PInt i) = Some (int_repr i)"
| "key_str (PBool b) = Some (if b then ''true'' else ''false'')"
| "key_str PNone = Some ''null''"
| "key_str _ = None"

fun enc :: "pyval \<Rightarrow> py_error + string"
and enc_list :: "pyval list \<Rightarrow> py_error + string list"
and enc_items :: "(pyval \<times> pyval) list \<Rightarrow> py_error + string list" where
  "enc PNone = Inr ''null''"
| "enc (PBool b) = Inr (if b then ''true'' else ''false'')"
| "enc (PInt i) = Inr (int_repr i)"
| "enc (PStr s) = Inr (encode_str s)"
| "enc (PList xs) =
     (case enc_list xs of Inl e \<Rightarrow> Inl e | Inr ss \<Rightarrow> Inr (''['' @ join '', '' ss @ '']''))"
| "enc (PTuple xs) =
     (case enc_list xs of Inl e \<Rightarrow> Inl e | Inr ss \<Rightarrow> Inr (''['' @ join '', '' ss @ '']''))"
| "enc (PDict kvs) =
     (case enc_items kvs of Inl e \<Rightarrow> Inl e | Inr ss \<Rightarrow> Inr (''{'' @ join '', '' ss @ ''}''))"
| "enc (PObject s) = Inr (encode_str s)"
| "enc_list [] = Inr []"
| "enc_list (x # xs) =
     (case enc x of Inl e \<Rightarrow> Inl e
      | Inr s \<Rightarrow> (case enc_list xs of Inl e \<Rightarrow> Inl e | Inr ss \<Rightarrow> Inr (s # ss)))"
| "enc_items [] = Inr []"
| "enc_items (kv # kvs) =
     (case key_str (fst kv) of None \<Rightarrow> Inl TypeError
      | Some k \<Rightarrow>
          (case enc (snd kv) of Inl e \<Rightarrow> Inl e
           | Inr s \<Rightarrow>
               (case enc_items kvs of Inl e \<Rightarrow> Inl e
                | Inr ss \<Rightarrow> Inr ((encode_str k @ '': '' @ s) # ss))))"

definition json_dumps :: "pyval \<Rightarrow> py_error + string" where
  "json_dumps data = enc data"

subsection \<open>\<^verbatim>\<open>queue.Queue\<close>\<close>

text \<open>An event record \<^verbatim>\<open>(id, type, data_json)\<close>.\<close>

type_synonym event = "int \<times> string \<times> string"

record py_queue =
  maxsize :: nat
  items :: "event list"

definition Queue :: "nat \<Rightarrow> py_queue" where
  "Queue m = \<lparr>maxsize = m, items = []\<rparr>"

definition full :: "py_queue \<Rightarrow> bool" where
  "full q = (0 < maxsize q \<and> maxsize q \<le> length (items q))"

text \<open>\<^verbatim>\<open>put_nowait\<close>: \<open>None\<close> is \<^verbatim>\<open>queue.Full\<close>, the only exception it raises.\<close>

definition put_nowait :: "py_queue \<Rightarrow> event \<Rightarrow> py_queue option" where
  "put_nowait q x = (if full q then None else Some (q\<lparr>items := items q @ [x]\<rparr>))"

text \<open>
  The blocking \<^verbatim>\<open>put\<close> waits for a free slot. In \<^verbatim>\<open>subscribe\<close> the queue is new and no
  other thread holds it, so on a full queue the wait never ends: \<open>None\<close> is that hang.
\<close>

definition put :: "py_queue \<Rightarrow> event \<Rightarrow> py_queue option" where
  "put q x = (if full q then None else Some (q\<lparr>items := items q @ [x]\<rparr>))"

text \<open>\<^verbatim>\<open>get(timeout=15)\<close>: \<open>None\<close> is \<^verbatim>\<open>queue.Empty\<close>, raised when the wait times out.\<close>

definition get :: "py_queue \<Rightarrow> (event \<times> py_queue) option" where
  "get q = (case items q of [] \<Rightarrow> None | x # xs \<Rightarrow> Some (x, q\<lparr>items := xs\<rparr>))"

subsection \<open>\<^verbatim>\<open>EventBus\<close>\<close>

text \<open>
  Queues are objects shared between the bus and the handler that consumes them, and
  \<^verbatim>\<open>list.remove\<close> compares them by identity: the registry holds references, \<open>queues\<close> is
  the store of the queue objects, \<open>fresh\<close> the next unused reference.
\<close>

type_synonym ref = nat

record event_bus =
  subscribers :: "ref list"
  history :: "event list"
  next_id :: int
  queues :: "ref \<Rightarrow> py_queue option"
  fresh :: ref

definition HISTORY_SIZE :: nat where
  "HISTORY_SIZE = 200"

definition init_bus :: event_bus where
  "init_bus = \<lparr>subscribers = [], history = [], next_id = 1, queues = (\<lambda>r. None), fresh = 0\<rparr>"

text \<open>The replay loop of \<^verbatim>\<open>subscribe\<close>, over the history.\<close>

fun replay :: "event list \<Rightarrow> int \<Rightarrow> py_queue \<Rightarrow> py_queue option" where
  "replay [] last_event_id q = Some q"
| "replay (ev # evs) last_event_id q =
     (if fst ev > last_event_id
      then (case put q ev of None \<Rightarrow> None | Some q' \<Rightarrow> replay evs last_event_id q')
      else replay evs last_event_id q)"

definition subscribe :: "event_bus \<Rightarrow> int \<Rightarrow> (ref \<times> event_bus) option" where
  "subscribe b last_event_id =
     (case replay (history b) last_event_id (Queue 512) of
        None \<Rightarrow> None
      | Some q \<Rightarrow>
          Some (fresh b,
                b\<lparr>subscribers := subscribers b @ [fresh b],
                  queues := (queues b)(fresh b := Some q),
                  fresh := Suc (fresh b)\<rparr>))"

text \<open>\<^verbatim>\<open>list.remove\<close> deletes the first occurrence and raises \<^verbatim>\<open>ValueError\<close> when there is none.\<close>

definition list_remove :: "'a list \<Rightarrow> 'a \<Rightarrow> py_error + 'a list" where
  "list_remove xs x = (if x \<in> set xs then Inr (remove1 x xs) else Inl ValueError)"

definition unsubscribe :: "event_bus \<Rightarrow> ref \<Rightarrow> event_bus" where
  "unsubscribe b q =
     (case list_remove (subscribers b) q of
        Inr xs \<Rightarrow> b\<lparr>subscribers := xs\<rparr>
      | Inl e \<Rightarrow> b)"

text \<open>The slice \<^verbatim>\<open>xs[-n:]\<close>.\<close>

definition slice_last :: "nat \<Rightarrow> 'a list \<Rightarrow> 'a list" where
  "slice_last n xs = (if n = 0 then xs else drop (length xs - n) xs)"

text \<open>
  The body of the fan-out loop: \<^verbatim>\<open>put_nowait\<close> inside \<^verbatim>\<open>try\<close>, \<^verbatim>\<open>queue.Full\<close> passed over.
\<close>

definition try_put :: "py_queue \<Rightarrow> event \<Rightarrow> py_queue" where
  "try_put q ev = (case put_nowait q ev of None \<Rightarrow> q | Some q' \<Rightarrow> q')"

text \<open>The fan-out loop of \<^verbatim>\<open>push\<close>, over a copy of the registry.\<close>

fun fan_out :: "ref list \<Rightarrow> event \<Rightarrow> event_bus \<Rightarrow> event_bus" where
  "fan_out [] ev b = b"
| "fan_out (r # rs) ev b =
     fan_out rs ev
       (case queues b r of
          None \<Rightarrow> b
        | Some q \<Rightarrow> b\<lparr>queues := (queues b)(r := Some (try_put q ev))\<rparr>)"

definition push :: "event_bus \<Rightarrow> string \<Rightarrow> pyval \<Rightarrow> py_error + event_bus" where
  "push b event_type data =
     (case json_dumps data of
        Inl e \<Rightarrow> Inl e
      | Inr data_json \<Rightarrow>
          (let eid = next_id b;
               b1 = b\<lparr>next_id := next_id b + 1\<rparr>;
               b2 = b1\<lparr>history := history b1 @ [(eid, event_type, data_json)]\<rparr>;
               b3 = (if length (history b2) > HISTORY_SIZE
                     then b2\<lparr>history := slice_last HISTORY_SIZE (history b2)\<rparr>
                     else b2)
           in Inr (fan_out (subscribers b3) (eid, event_type, data_json) b3)))"

definition push_event :: "event_bus \<Rightarrow> string \<Rightarrow> pyval \<Rightarrow> py_error + event_bus" where
  "push_event b event_type data = push b event_type data"

subsection \<open>Executions of one bus\<close>

text \<open>The pending records of the channel \<open>r\<close>.\<close>

definition mailbox :: "event_bus \<Rightarrow> ref \<Rightarrow> event list" where
  "mailbox b r = (case queues b r of None \<Rightarrow> [] | Some q \<Rightarrow> items q)"

text \<open>A consumer's \<^verbatim>\<open>sub.get(timeout=15)\<close> on the shared queue object \<open>r\<close>.\<close>

definition queue_get :: "event_bus \<Rightarrow> ref \<Rightarrow> (event \<times> event_bus) option" where
  "queue_get b r =
     (case queues b r of
        None \<Rightarrow> None
      | Some q \<Rightarrow>
          (case get q of
             None \<Rightarrow> None
           | Some (ev, q') \<Rightarrow> Some (ev, b\<lparr>queues := (queues b)(r := Some q')\<rparr>)))"

text \<open>
  Every method of the bus takes the lock, so an execution is a sequence of whole calls:
  publishes by producers, subscriptions and removals by handlers, and reads of a channel
  by the handler that owns it. A publish whose payload does not serialize raises before
  the lock is taken and leaves the bus as it was; so does a read that times out. A
  \<^verbatim>\<open>subscribe\<close> that hangs, hangs with the lock held: the execution has no next state.
\<close>

datatype op = Push string pyval | Subscribe int | Unsubscribe ref | Get ref

fun exec_op :: "event_bus \<Rightarrow> op \<Rightarrow> event_bus option" where
  "exec_op b (Push event_type data) =
     (case push b event_type data of Inl e \<Rightarrow> Some b | Inr b' \<Rightarrow> Some b')"
| "exec_op b (Subscribe last_event_id) = map_option snd (subscribe b last_event_id)"
| "exec_op b (Unsubscribe r) = Some (unsubscribe b r)"
| "exec_op b (Get r) = (case queue_get b r of None \<Rightarrow> Some b | Some (ev, b') \<Rightarrow> Some b')"

fun run :: "event_bus \<Rightarrow> op list \<Rightarrow> event_bus option" where
  "run b [] = Some b"
| "run b (x # xs) = (case exec_op b x of None \<Rightarrow> None | Some b' \<Rightarrow> run b' xs)"

text \<open>
  The publishes of an execution that went through, as \<^verbatim>\<open>(type, data_json)\<close>, and the
  records a bus that counts from 1 stamps on them.
\<close>

fun published :: "op list \<Rightarrow> (string \<times> string) list" where
  "published [] = []"
| "published (Push event_type data # xs) =
     (case json_dumps data of
        Inl e \<Rightarrow> published xs
      | Inr data_json \<Rightarrow> (event_type, data_json) # published xs)"
| "published (x # xs) = published xs"

fun stamp :: "int \<Rightarrow> (string \<times> string) list \<Rightarrow> event list" where
  "stamp i [] = []"
| "stamp i (p # ps) = (i, fst p, snd p) # stamp (i + 1) ps"

definition records :: "op list \<Rightarrow> event list" where
  "records xs = stamp 1 (published xs)"

text \<open>What every execution keeps true of the bus.\<close>

definition bus_inv :: "event_bus \<Rightarrow> bool" where
  "bus_inv b =
     (length (history b) \<le> HISTORY_SIZE
      \<and> int (length (history b)) < next_id b
      \<and> map fst (history b) = [next_id b - int (length (history b)) .. next_id b - 1]
      \<and> distinct (subscribers b)
      \<and> (\<forall>r \<in> set (subscribers b).
            r < fresh b \<and> (case queues b r of None \<Rightarrow> False | Some q \<Rightarrow> maxsize q = 512)))"

subsection \<open>\<^verbatim>\<open>_DashboardHandler\<close>\<close>

text \<open>
  What \<^verbatim>\<open>do_GET\<close> calls, as a function of \<^verbatim>\<open>self.path\<close> (the path of the request line
  as the base handler stores it, query string included).
\<close>

datatype response = Serve_html | Serve_sse | Send_error_NOT_FOUND

definition do_GET :: "string \<Rightarrow> response" where
  "do_GET path =
     (if path = ''/'' \<or> path = ''/index.html'' then Serve_html
      else if prefix ''/events'' path then Serve_sse
      else Send_error_NOT_FOUND)"

text \<open>
  The event stream endpoint in the specification's words: \<^verbatim>\<open>GET /events[?last_event_id=N]\<close>,
  the path \<^verbatim>\<open>/events\<close> alone or followed by a query string.
\<close>

definition spec_stream_endpoint :: "string \<Rightarrow> bool" where
  "spec_stream_endpoint path = (path = ''/events'' \<or> prefix ''/events?'' path)"

text \<open>
  \<^verbatim>\<open>_serve_sse\<close> from the subscription on (\<open>last_id\<close> is the cursor parsed from the
  request). The handler runs beside the other threads, so its environment is a script:
  for each turn of the loop, the calls other threads make on the bus while \<^verbatim>\<open>get\<close>
  waits, and the exception, if any, that formatting and writing raise in this turn.
  A script that ends leaves the loop running: \<open>None\<close>.
\<close>

datatype frame = Event_frame event | Keepalive

datatype exit = Returned | Raised py_error

definition disconnected :: "py_error \<Rightarrow> bool" where
  "disconnected e = (e = BrokenPipeError \<or> e = ConnectionResetError)"

fun delivery_loop ::
  "ref \<Rightarrow> event_bus \<Rightarrow> (op list \<times> py_error option) list \<Rightarrow> frame list
     \<Rightarrow> (exit \<times> event_bus \<times> frame list) option" where
  "delivery_loop sub b [] out = None"
| "delivery_loop sub b (step # steps) out =
     (case run b (fst step) of
        None \<Rightarrow> None
      | Some b1 \<Rightarrow>
          (case queue_get b1 sub of
             Some (ev, b2) \<Rightarrow>
               (case snd step of
                  None \<Rightarrow> delivery_loop sub b2 steps (out @ [Event_frame ev])
                | Some e \<Rightarrow>
                    if disconnected e then Some (Returned, b2, out)
                    else Some (Raised e, b2, out))
           | None \<Rightarrow>
               (case snd step of
                  None \<Rightarrow> delivery_loop sub b1 steps (out @ [Keepalive])
                | Some e \<Rightarrow>
                    if disconnected e then Some (Returned, b1, out)
                    else Some (Raised e, b1, out))))"

text \<open>The \<^verbatim>\<open>finally\<close> clause runs on both kinds of exit.\<close>

definition serve_sse ::
  "event_bus \<Rightarrow> int \<Rightarrow> (op list \<times> py_error option) list
     \<Rightarrow> (exit \<times> event_bus \<times> frame list) option" where
  "serve_sse b last_id steps =
     (case subscribe b last_id of
        None \<Rightarrow> None
      | Some (sub, b1) \<Rightarrow>
          (case delivery_loop sub b1 steps [] of
             None \<Rightarrow> None
           | Some (ex, b2, out) \<Rightarrow> Some (ex, unsubscribe b2 sub, out)))"

subsection \<open>\<^verbatim>\<open>start\<close>\<close>

text \<open>
  The module globals \<^verbatim>\<open>_server\<close> (the listener, given by the address it is bound to) and
  \<^verbatim>\<open>_port\<close>, and what the process has done so far: the addresses it tried to bind, the
  listeners it opened, the serving threads it started and the browser timers it
  scheduled (by URL).
\<close>

type_synonym address = "string \<times> int"

record lifecycle =
  server :: "address option"
  port :: int
  attempts :: "address list"
  listeners :: "address list"
  threads :: "address list"
  timers :: "string list"

definition init_lifecycle :: lifecycle where
  "init_lifecycle =
     \<lparr>server = None, port = 0, attempts = [], listeners = [], threads = [], timers = []\<rparr>"

text \<open>
  The loop over \<^verbatim>\<open>range(port_start, port_end + 1)\<close>. \<open>bind\<close> is the operating system:
  the exception the server's constructor raises for an address, if any. Only
  \<^verbatim>\<open>OSError\<close> (and its subclasses) is caught.
\<close>

fun try_ports ::
  "(address \<Rightarrow> py_error option) \<Rightarrow> lifecycle \<Rightarrow> int list \<Rightarrow> (py_error + int option) \<times> lifecycle" where
  "try_ports bind s [] = (Inr None, s)"
| "try_ports bind s (p # ps) =
     (let s1 = s\<lparr>attempts := attempts s @ [(''127.0.0.1'', p)]\<rparr> in
      case bind (''127.0.0.1'', p) of
        None \<Rightarrow>
          (Inr (Some p),
           s1\<lparr>server := Some (''127.0.0.1'', p),
              port := p,
              listeners := listeners s1 @ [(''127.0.0.1'', p)],
              threads := threads s1 @ [(''127.0.0.1'', p)],
              timers := timers s1 @ [''http://127.0.0.1:'' @ int_repr p]\<rparr>)
      | Some e \<Rightarrow>
          if isinstance_OSError e then try_ports bind s1 ps else (Inl e, s1))"

text \<open>
  The socket layer under the constructor, as CPython has it, for the ports \<open>in_use\<close>
  taken by others: a port outside \<^verbatim>\<open>0-65535\<close> is refused with \<^verbatim>\<open>OverflowError\<close> (which is
  not an \<^verbatim>\<open>OSError\<close>) before any system call, a port in use gives \<^verbatim>\<open>OSError\<close>.
\<close>

definition socket_bind :: "int set \<Rightarrow> address \<Rightarrow> py_error option" where
  "socket_bind in_use a =
     (if snd a < 0 \<or> 65535 < snd a then Some OverflowError
      else if snd a \<in> in_use then Some OSError
      else None)"

definition start ::
  "(address \<Rightarrow> py_error option) \<Rightarrow> lifecycle \<Rightarrow> int \<Rightarrow> int \<Rightarrow> (py_error + int option) \<times> lifecycle" where
  "start bind s port_start port_end =
     (if server s \<noteq> None then (Inr (Some (port s)), s)
      else try_ports bind s [port_start .. port_end])"

text \<open>A series of calls of \<^verbatim>\<open>start\<close>, each with its arguments and the ports free at its time.\<close>

fun start_calls ::
  "lifecycle \<Rightarrow> ((address \<Rightarrow> py_error option) \<times> int \<times> int) list
     \<Rightarrow> (py_error + int option) list \<times> lifecycle" where
  "start_calls s [] = ([], s)"
| "start_calls s (c # cs) =
     (let r = start (fst c) s (fst (snd c)) (snd (snd c));
          rest = start_calls (snd r) cs
      in (fst r # fst rest, snd rest))"

section \<open>Facts about the bus\<close>


lemma fan_out_fields [simp]:
  "subscribers (fan_out rs ev b) = subscribers b"
  "history (fan_out rs ev b) = history b"
  "next_id (fan_out rs ev b) = next_id b"
  "fresh (fan_out rs ev b) = fresh b"
  by (induction rs arbitrary: b) (auto split: option.splits)

lemma fan_out_queues_notin:
  "r \<notin> set rs \<Longrightarrow> queues (fan_out rs ev b) r = queues b r"
  by (induction rs arbitrary: b) (auto split: option.splits)

lemma fan_out_queues_in:
  "distinct rs \<Longrightarrow> r \<in> set rs \<Longrightarrow>
   queues (fan_out rs ev b) r = map_option (\<lambda>q. try_put q ev) (queues b r)"
proof (induction rs arbitrary: b)
  case Nil
  then show ?case by simp
next
  case (Cons a rs)
  show ?case
  proof (cases "r = a")
    case True
    with Cons.prems have "a \<notin> set rs" by simp
    with True show ?thesis
      by (simp add: fan_out_queues_notin split: option.splits)
  next
    case False
    with Cons.prems have "r \<in> set rs" "distinct rs" by simp_all
    with False Cons.IH show ?thesis
      by (simp split: option.splits)
  qed
qed

lemma try_put_fields:
  "maxsize (try_put q ev) = maxsize q"
  "items (try_put q ev) = (if full q then items q else items q @ [ev])"
  by (simp_all add: try_put_def put_nowait_def)

lemma push_Inr:
  "json_dumps d = Inr js \<Longrightarrow>
   push b t d =
     Inr (fan_out (subscribers b) (next_id b, t, js)
           (b\<lparr>next_id := next_id b + 1,
              history := (if HISTORY_SIZE \<le> length (history b)
                          then drop (Suc (length (history b)) - HISTORY_SIZE) (history b @ [(next_id b, t, js)])
                          else history b @ [(next_id b, t, js)])\<rparr>))"
  by (simp add: push_def Let_def slice_last_def HISTORY_SIZE_def)

lemma push_Inl: "json_dumps d = Inl e \<Longrightarrow> push b t d = Inl e"
  by (simp add: push_def)

lemma replay_filter:
  "maxsize q = 0 \<or> length (items q) + length (filter (\<lambda>ev. k < fst ev) evs) \<le> maxsize q \<Longrightarrow>
   replay evs k q = Some (q\<lparr>items := items q @ filter (\<lambda>ev. k < fst ev) evs\<rparr>)"
proof (induction evs arbitrary: q)
  case Nil
  show ?case by simp
next
  case (Cons ev evs)
  show ?case
  proof (cases "k < fst ev")
    case True
    let ?q' = "q\<lparr>items := items q @ [ev]\<rparr>"
    from True Cons.prems have nf: "\<not> full q" by (auto simp: full_def)
    from True Cons.prems have "maxsize ?q' = 0 \<or> length (items ?q') + length (filter (\<lambda>ev. k < fst ev) evs) \<le> maxsize ?q'"
      by auto
    from Cons.IH [OF this] True nf show ?thesis
      by (simp add: put_def)
  next
    case False
    with Cons.prems have "maxsize q = 0 \<or> length (items q) + length (filter (\<lambda>ev. k < fst ev) evs) \<le> maxsize q"
      by simp
    from Cons.IH [OF this] False show ?thesis by simp
  qed
qed

lemma subscribe_Some:
  assumes "length (history b) \<le> 512"
  shows "subscribe b k =
    Some (fresh b,
          b\<lparr>subscribers := subscribers b @ [fresh b],
            queues := (queues b)(fresh b := Some \<lparr>maxsize = 512, items = filter (\<lambda>ev. k < fst ev) (history b)\<rparr>),
            fresh := Suc (fresh b)\<rparr>)"
proof -
  have "length (filter (\<lambda>ev. k < fst ev) (history b)) \<le> 512"
    using le_trans [OF length_filter_le assms] .
  then have "maxsize (Queue 512) = 0 \<or> length (items (Queue 512)) + length (filter (\<lambda>ev. k < fst ev) (history b)) \<le> maxsize (Queue 512)"
    by (simp add: Queue_def)
  from replay_filter [OF this] show ?thesis
    by (simp add: subscribe_def Queue_def)
qed

lemma bus_inv_init: "bus_inv init_bus"
  by (simp add: bus_inv_def init_bus_def)

lemma upto_snoc: "a \<le> b + 1 \<Longrightarrow> [a .. b] @ [b + 1] = [a .. b + 1]"
  by (simp add: upto_rec2)

lemma bus_inv_push:
  assumes inv: "bus_inv b" and ok: "push b t d = Inr b'"
  shows "bus_inv b'"
proof -
  obtain js where js: "json_dumps d = Inr js"
    using ok by (cases "json_dumps d") (simp_all add: push_def)
  let ?ev = "(next_id b, t, js)"
  let ?h = "if HISTORY_SIZE \<le> length (history b)
            then drop (Suc (length (history b)) - HISTORY_SIZE) (history b @ [?ev])
            else history b @ [?ev]"
  from push_Inr [OF js, of b t] ok
  have b': "b' = fan_out (subscribers b) ?ev (b\<lparr>next_id := next_id b + 1, history := ?h\<rparr>)"
    by simp
  from inv have len: "length (history b) \<le> 200" and pos: "int (length (history b)) < next_id b"
    and ids: "map fst (history b) = [next_id b - int (length (history b)) .. next_id b - 1]"
    and dist: "distinct (subscribers b)"
    and subs: "\<forall>r \<in> set (subscribers b). r < fresh b \<and> (case queues b r of None \<Rightarrow> False | Some q \<Rightarrow> maxsize q = 512)"
    by (simp_all add: bus_inv_def HISTORY_SIZE_def)
  have ids1: "map fst (history b @ [?ev]) = [next_id b - int (length (history b)) .. next_id b]"
    using ids pos upto_snoc [of "next_id b - int (length (history b))" "next_id b - 1"] by simp
  have h_len: "length ?h \<le> 200" using len by (simp add: HISTORY_SIZE_def)
  have h_pos: "int (length ?h) < next_id b + 1" using pos len by (simp add: HISTORY_SIZE_def)
  have h_ids: "map fst ?h = [next_id b + 1 - int (length ?h) .. next_id b]"
  proof (cases "HISTORY_SIZE \<le> length (history b)")
    case True
    with len have l: "length (history b) = 200" by (simp add: HISTORY_SIZE_def)
    have "map fst (drop 1 (history b @ [?ev])) = drop 1 [next_id b - 200 .. next_id b]"
      using ids1 l by (simp add: drop_map [symmetric] del: drop_append)
    also have "\<dots> = [next_id b - 199 .. next_id b]"
      by (subst upto_rec1) (simp_all)
    finally show ?thesis using True l by (simp add: HISTORY_SIZE_def)
  next
    case False
    then show ?thesis using ids1 by (simp add: HISTORY_SIZE_def)
  qed
  have q: "\<forall>r \<in> set (subscribers b). r < fresh b' \<and> (case queues b' r of None \<Rightarrow> False | Some q \<Rightarrow> maxsize q = 512)"
  proof
    fix r assume r: "r \<in> set (subscribers b)"
    with subs obtain q where "r < fresh b" "queues b r = Some q" "maxsize q = 512"
      by (auto split: option.splits)
    with fan_out_queues_in [OF dist r, of ?ev "b\<lparr>next_id := next_id b + 1, history := ?h\<rparr>"]
    show "r < fresh b' \<and> (case queues b' r of None \<Rightarrow> False | Some q \<Rightarrow> maxsize q = 512)"
      by (simp add: b' try_put_fields)
  qed
  show ?thesis
    unfolding bus_inv_def
    using h_len h_pos h_ids dist q by (simp add: b' HISTORY_SIZE_def)
qed

lemma bus_inv_subscribe:
  assumes inv: "bus_inv b" and ok: "subscribe b k = Some (r, b')"
  shows "bus_inv b'"
proof -
  from inv have "length (history b) \<le> 512" by (simp add: bus_inv_def HISTORY_SIZE_def)
  from subscribe_Some [OF this, of k] ok
  have b': "b' = b\<lparr>subscribers := subscribers b @ [fresh b],
            queues := (queues b)(fresh b := Some \<lparr>maxsize = 512, items = filter (\<lambda>ev. k < fst ev) (history b)\<rparr>),
            fresh := Suc (fresh b)\<rparr>"
    by simp
  from inv show ?thesis
    by (auto simp: bus_inv_def b' split: option.splits)
qed

lemma subscribers_unsubscribe: "subscribers (unsubscribe b r) = remove1 r (subscribers b)"
  by (simp add: unsubscribe_def list_remove_def remove1_idem)

lemma unsubscribe_fields [simp]:
  "history (unsubscribe b r) = history b"
  "next_id (unsubscribe b r) = next_id b"
  "queues (unsubscribe b r) = queues b"
  "fresh (unsubscribe b r) = fresh b"
  by (simp_all add: unsubscribe_def list_remove_def)

lemma bus_inv_unsubscribe: "bus_inv b \<Longrightarrow> bus_inv (unsubscribe b r)"
  by (auto simp: bus_inv_def subscribers_unsubscribe)

lemma queue_get_Some:
  "queue_get b r = Some (ev, b') \<Longrightarrow>
   \<exists>q evs. queues b r = Some q \<and> items q = ev # evs \<and> b' = b\<lparr>queues := (queues b)(r := Some (q\<lparr>items := evs\<rparr>))\<rparr>"
  by (auto simp: queue_get_def get_def split: option.splits list.splits)

lemma bus_inv_queue_get: "bus_inv b \<Longrightarrow> queue_get b r = Some (ev, b') \<Longrightarrow> bus_inv b'"
  by (drule queue_get_Some) (auto simp: bus_inv_def split: option.splits)

lemma bus_inv_exec_op: "bus_inv b \<Longrightarrow> \<exists>b'. exec_op b x = Some b' \<and> bus_inv b'"
proof (cases x)
  case (Push t d)
  assume "bus_inv b"
  then show ?thesis using Push bus_inv_push [of b t d]
    by (cases "push b t d") auto
next
  case (Subscribe k)
  assume inv: "bus_inv b"
  then have "length (history b) \<le> 512" by (simp add: bus_inv_def HISTORY_SIZE_def)
  from subscribe_Some [OF this, of k] obtain b' where s: "subscribe b k = Some (fresh b, b')"
    by simp
  with bus_inv_subscribe [OF inv s] Subscribe show ?thesis by simp
next
  case (Unsubscribe r)
  assume "bus_inv b"
  then show ?thesis using Unsubscribe by (simp add: bus_inv_unsubscribe)
next
  case (Get r)
  assume "bus_inv b"
  then show ?thesis using Get bus_inv_queue_get [of b r]
    by (cases "queue_get b r") auto
qed

lemma run_bus_inv: "bus_inv b \<Longrightarrow> \<exists>c. run b xs = Some c \<and> bus_inv c"
proof (induction xs arbitrary: b)
  case Nil
  then show ?case by simp
next
  case (Cons x xs)
  from bus_inv_exec_op [OF Cons.prems, of x] obtain b' where "exec_op b x = Some b'" "bus_inv b'"
    by blast
  with Cons.IH [of b'] show ?case by simp
qed

lemma run_append: "run b (xs @ ys) = (case run b xs of None \<Rightarrow> None | Some c \<Rightarrow> run c ys)"
  by (induction xs arbitrary: b) (auto split: option.splits)

lemma published_append: "published (xs @ ys) = published xs @ published ys"
  by (induction xs rule: published.induct) (auto split: sum.splits)

lemma stamp_append: "stamp i (ps @ qs) = stamp i ps @ stamp (i + int (length ps)) qs"
  by (induction ps arbitrary: i) (auto simp: algebra_simps)

lemma length_stamp [simp]: "length (stamp i ps) = length ps"
  by (induction ps arbitrary: i) auto

lemma length_records: "length (records xs) = length (published xs)"
  by (simp add: records_def)

lemma records_snoc_push:
  "json_dumps d = Inr js \<Longrightarrow>
   records (xs @ [Push t d]) = records xs @ [(int (length (published xs)) + 1, t, js)]"
  by (simp add: records_def published_append stamp_append)

lemma drop_snoc_trim:
  assumes "200 \<le> length R"
  shows "drop (Suc (length (drop (length R - 200) R)) - 200) (drop (length R - 200) R @ [ev])
         = drop (length (R @ [ev]) - 200) (R @ [ev])"
proof -
  from assms have "length (drop (length R - 200) R) = 200" by simp
  then have "drop (Suc (length (drop (length R - 200) R)) - 200) (drop (length R - 200) R @ [ev])
     = drop 1 (drop (length R - 200) R) @ [ev]"
    by simp
  also have "\<dots> = drop (length R - 199) R @ [ev]"
  proof -
    have "Suc (length R - 200) = length R - 199" using assms by arith
    then show ?thesis by simp
  qed
  also have "\<dots> = drop (length (R @ [ev]) - 200) (R @ [ev])"
    using assms by simp
  finally show ?thesis .
qed

lemma run_history:
  "\<exists>c. run init_bus xs = Some c
      \<and> history c = drop (length (records xs) - 200) (records xs)
      \<and> next_id c = int (length (published xs)) + 1"
proof (induction xs rule: rev_induct)
  case Nil
  show ?case by (simp add: init_bus_def records_def)
next
  case (snoc x xs)
  then obtain c where c: "run init_bus xs = Some c"
    and h: "history c = drop (length (records xs) - 200) (records xs)"
    and n: "next_id c = int (length (published xs)) + 1"
    by blast
  have run: "run init_bus (xs @ [x]) = exec_op c x"
    by (simp add: run_append c split: option.splits)
  from run_bus_inv [OF bus_inv_init, of xs] c have inv: "bus_inv c" by simp
  show ?case
  proof (cases x)
    case (Push t d)
    show ?thesis
    proof (cases "json_dumps d")
      case (Inl e)
      then have "records (xs @ [x]) = records xs" "published (xs @ [x]) = published xs"
        using Push by (simp_all add: records_def published_append)
      with run c h n Push Inl show ?thesis by (simp add: push_Inl)
    next
      case (Inr js)
      let ?ev = "(next_id c, t, js)"
      have rec: "records (xs @ [x]) = records xs @ [?ev]"
        using Push Inr n by (simp add: records_snoc_push)
      have pub: "published (xs @ [x]) = published xs @ [(t, js)]"
        using Push Inr by (simp add: published_append)
      have "history (fan_out (subscribers c) ?ev
           (c\<lparr>next_id := next_id c + 1,
              history := (if HISTORY_SIZE \<le> length (history c)
                          then drop (Suc (length (history c)) - HISTORY_SIZE) (history c @ [?ev])
                          else history c @ [?ev])\<rparr>))
        = drop (length (records xs @ [?ev]) - 200) (records xs @ [?ev])"
      proof (cases "200 \<le> length (records xs)")
        case True
        then have "length (history c) = 200" using h by simp
        with True h drop_snoc_trim [OF True, of ?ev] show ?thesis
          by (simp add: HISTORY_SIZE_def)
      next
        case False
        with h show ?thesis by (simp add: HISTORY_SIZE_def)
      qed
      with run Push Inr n rec pub show ?thesis
        by (simp add: push_Inr)
    qed
  next
    case (Subscribe k)
    from inv have "length (history c) \<le> 512" by (simp add: bus_inv_def HISTORY_SIZE_def)
    from subscribe_Some [OF this, of k] run Subscribe h n show ?thesis
      by (simp add: records_def published_append)
  next
    case (Unsubscribe r)
    with run h n show ?thesis by (simp add: records_def published_append)
  next
    case (Get r)
    show ?thesis
    proof (cases "queue_get c r")
      case None
      with run Get h n show ?thesis by (simp add: records_def published_append)
    next
      case (Some a)
      then obtain ev c' where a: "queue_get c r = Some (ev, c')" by (cases a) simp
      from queue_get_Some [OF a] have "history c' = history c" "next_id c' = next_id c" by auto
      with a run Get h n show ?thesis by (simp add: records_def published_append)
    qed
  qed
qed

lemma filter_upto_gt: "filter (\<lambda>x. k < x) [a .. b] = [max (k + 1) a .. b]"
proof (rule sorted_distinct_set_unique)
  show "sorted (filter (\<lambda>x. k < x) [a .. b])" by (simp add: sorted_wrt_filter)
  show "distinct (filter (\<lambda>x. k < x) [a .. b])" by simp
  show "sorted [max (k + 1) a .. b]" by simp
  show "distinct [max (k + 1) a .. b]" by simp
  show "set (filter (\<lambda>x. k < x) [a .. b]) = set [max (k + 1) a .. b]" by auto
qed

lemma map_fst_stamp: "map fst (stamp i ps) = [i .. i + int (length ps) - 1]"
proof (induction ps arbitrary: i)
  case Nil
  show ?case by simp
next
  case (Cons p ps)
  have "[i .. i + int (length (p # ps)) - 1] = i # [i + 1 .. i + 1 + int (length ps) - 1]"
    by (subst upto_rec1) (simp_all add: algebra_simps)
  with Cons.IH [of "i + 1"] show ?case by simp
qed

lemma push_subscribers: "push b t d = Inr b' \<Longrightarrow> subscribers b' = subscribers b"
  by (auto simp: push_def Let_def split: sum.splits if_splits)

lemma subscribe_subscribers:
  "subscribe b k = Some (r, b') \<Longrightarrow> r = fresh b \<and> subscribers b' = subscribers b @ [fresh b]"
  by (auto simp: subscribe_def split: option.splits)

lemma exec_op_keeps_subscriber:
  assumes "exec_op b x = Some b'" and "x \<noteq> Unsubscribe sub" and "sub \<in> set (subscribers b)"
  shows "sub \<in> set (subscribers b')"
proof (cases x)
  case (Push t d)
  with assms show ?thesis
    by (cases "push b t d") (auto dest: push_subscribers)
next
  case (Subscribe k)
  with assms show ?thesis
    by (auto dest: subscribe_subscribers)
next
  case (Unsubscribe r)
  with assms show ?thesis
    by (auto simp: subscribers_unsubscribe)
next
  case (Get r)
  with assms show ?thesis
    by (cases "queue_get b r") (auto dest: queue_get_Some)
qed

lemma run_keeps_subscriber:
  "run b ys = Some c \<Longrightarrow> Unsubscribe sub \<notin> set ys \<Longrightarrow> sub \<in> set (subscribers b) \<Longrightarrow>
   sub \<in> set (subscribers c)"
proof (induction ys arbitrary: b)
  case Nil
  then show ?case by simp
next
  case (Cons x ys)
  from Cons.prems(1) obtain b' where x: "exec_op b x = Some b'" and rest: "run b' ys = Some c"
    by (auto split: option.splits)
  from Cons.prems(2) have "x \<noteq> Unsubscribe sub" "Unsubscribe sub \<notin> set ys" by auto
  with Cons.IH [OF rest] exec_op_keeps_subscriber [OF x _ Cons.prems(3)] show ?case by blast
qed

lemma push_effect:
  assumes inv: "bus_inv b" and js: "json_dumps d = Inr js"
  shows "\<exists>b'. push b t d = Inr b' \<and> bus_inv b'
     \<and> subscribers b' = subscribers b
     \<and> next_id b' = next_id b + 1
     \<and> fresh b' = fresh b
     \<and> last (history b') = (next_id b, t, js)
     \<and> suffix (history b') (history b @ [(next_id b, t, js)])
     \<and> (\<forall>r \<in> set (subscribers b).
           mailbox b' r = (if 512 \<le> length (mailbox b r) then mailbox b r
                           else mailbox b r @ [(next_id b, t, js)]))
     \<and> (\<forall>r. r \<notin> set (subscribers b) \<longrightarrow> mailbox b' r = mailbox b r)"
proof -
  let ?ev = "(next_id b, t, js)"
  let ?h = "if HISTORY_SIZE \<le> length (history b)
            then drop (Suc (length (history b)) - HISTORY_SIZE) (history b @ [?ev])
            else history b @ [?ev]"
  let ?b0 = "b\<lparr>next_id := next_id b + 1, history := ?h\<rparr>"
  let ?b' = "fan_out (subscribers b) ?ev ?b0"
  have p: "push b t d = Inr ?b'" by (rule push_Inr [OF js])
  from bus_inv_push [OF inv p] have inv': "bus_inv ?b'" .
  have h: "history ?b' = ?h" by simp
  have last: "last ?h = ?ev"
    by (simp add: HISTORY_SIZE_def)
  have suf: "suffix ?h (history b @ [?ev])"
  proof (cases "HISTORY_SIZE \<le> length (history b)")
    case True
    have "suffix (drop (Suc (length (history b)) - HISTORY_SIZE) (history b @ [?ev])) (history b @ [?ev])"
      by (rule suffix_drop)
    with True show ?thesis by (simp only: if_True)
  next
    case False
    then show ?thesis by (simp only: if_False suffix_order.refl)
  qed
  from inv have dist: "distinct (subscribers b)"
    and subs: "\<forall>r \<in> set (subscribers b). (case queues b r of None \<Rightarrow> False | Some q \<Rightarrow> maxsize q = 512)"
    by (simp_all add: bus_inv_def)
  have deliv: "\<forall>r \<in> set (subscribers b).
           mailbox ?b' r = (if 512 \<le> length (mailbox b r) then mailbox b r else mailbox b r @ [?ev])"
  proof
    fix r assume r: "r \<in> set (subscribers b)"
    with subs obtain q where q: "queues b r = Some q" "maxsize q = 512"
      by (auto split: option.splits)
    from fan_out_queues_in [OF dist r, of ?ev ?b0] q
    have "queues ?b' r = Some (try_put q ?ev)" by simp
    with q show "mailbox ?b' r = (if 512 \<le> length (mailbox b r) then mailbox b r else mailbox b r @ [?ev])"
      by (simp add: mailbox_def try_put_fields full_def)
  qed
  have others: "\<forall>r. r \<notin> set (subscribers b) \<longrightarrow> mailbox ?b' r = mailbox b r"
    by (simp add: mailbox_def fan_out_queues_notin)
  from p inv' h last suf deliv others show ?thesis
    by (intro exI [of _ ?b']) simp
qed

lemma published_replicate:
  "json_dumps d = Inr js \<Longrightarrow> published (replicate n (Push t d)) = replicate n (t, js)"
  by (induction n) simp_all

lemma stamp_replicate_Suc:
  "stamp i (replicate (Suc n) p) = stamp i (replicate n p) @ [(i + int n, fst p, snd p)]"
proof -
  have "replicate (Suc n) p = replicate n p @ [p]"
    by (simp add: replicate_append_same)
  then show ?thesis
    by (simp only: stamp_append) simp
qed

lemma run_pushes:
  assumes inv: "bus_inv b" and js: "json_dumps d = Inr js"
    and r: "r \<in> set (subscribers b)" and room: "length (mailbox b r) \<le> 512"
  shows "\<exists>c. run b (replicate n (Push t d)) = Some c \<and> bus_inv c
      \<and> subscribers c = subscribers b
      \<and> next_id c = next_id b + int n
      \<and> fresh c = fresh b
      \<and> mailbox c r = mailbox b r
          @ take (512 - length (mailbox b r)) (stamp (next_id b) (replicate n (t, js)))"
proof (induction n)
  case 0
  from inv show ?case by simp
next
  case (Suc n)
  then obtain c where c: "run b (replicate n (Push t d)) = Some c" and invc: "bus_inv c"
    and subs: "subscribers c = subscribers b" and nid: "next_id c = next_id b + int n"
    and fr: "fresh c = fresh b"
    and mb: "mailbox c r = mailbox b r
          @ take (512 - length (mailbox b r)) (stamp (next_id b) (replicate n (t, js)))"
    by blast
  from push_effect [OF invc js, of t] obtain c' where p: "push c t d = Inr c'" and invc': "bus_inv c'"
    and subs': "subscribers c' = subscribers c" and nid': "next_id c' = next_id c + 1"
    and fr': "fresh c' = fresh c"
    and deliv: "\<forall>r \<in> set (subscribers c).
           mailbox c' r = (if 512 \<le> length (mailbox c r) then mailbox c r
                           else mailbox c r @ [(next_id c, t, js)])"
    by blast
  have "replicate (Suc n) (Push t d) = replicate n (Push t d) @ [Push t d]"
    by (simp add: replicate_append_same)
  then have run: "run b (replicate (Suc n) (Push t d)) = Some c'"
    using c p by (simp only: run_append) simp
  let ?m = "length (mailbox b r)"
  let ?S = "stamp (next_id b) (replicate n (t, js))"
  have mb': "mailbox c' r = mailbox b r @ take (512 - ?m) (stamp (next_id b) (replicate (Suc n) (t, js)))"
  proof (cases "n < 512 - ?m")
    case True
    then have "length (mailbox c r) < 512" using mb by simp
    with deliv r subs have "mailbox c' r = mailbox c r @ [(next_id c, t, js)]" by simp
    with True mb nid show ?thesis
      by (simp only: stamp_replicate_Suc) simp
  next
    case False
    then have "512 \<le> length (mailbox c r)" using mb room by simp
    with deliv r subs have "mailbox c' r = mailbox c r" by simp
    with False mb show ?thesis
      by (simp only: stamp_replicate_Suc) simp
  qed
  from run invc' subs subs' nid nid' fr fr' mb' show ?case
    by (intro exI [of _ c']) simp
qed

lemma run_init_inv: "run init_bus xs = Some b \<Longrightarrow> bus_inv b"
  using run_bus_inv [OF bus_inv_init, of xs] by auto

lemma run_init_history:
  "run init_bus xs = Some b \<Longrightarrow>
   history b = drop (length (records xs) - 200) (records xs)
   \<and> next_id b = int (length (published xs)) + 1"
  using run_history [of xs] by auto

text \<open>
  Claim C1, as the code has it. In every state an execution of the bus reaches, and for
  every \<open>last_event_id\<close> \<open>k\<close>, \<^verbatim>\<open>subscribe\<close> returns (it does not hang) a new channel
  whose mailbox holds exactly the retained records with id above \<open>k\<close>, in history order:
  their ids are the consecutive integers from the first retained id above \<open>k\<close> to the last
  assigned id. The channel is appended to the registry, where it was not before. From
  then on, as long as it is not unsubscribed, it stays registered, and every publish
  whose payload serializes appends its record once to the mailbox when the mailbox
  holds fewer than 512 records, and leaves the mailbox as it is when it is full.
\<close>

theorem subscribe_replays:
  assumes "run init_bus xs = Some b"
  shows "\<exists>sub b'. subscribe b k = Some (sub, b')
     \<and> mailbox b' sub = filter (\<lambda>ev. k < fst ev) (history b)
     \<and> map fst (mailbox b' sub)
         = [max (k + 1) (next_id b - int (length (history b))) .. next_id b - 1]
     \<and> sub \<notin> set (subscribers b)
     \<and> subscribers b' = subscribers b @ [sub]
     \<and> history b' = history b
     \<and> next_id b' = next_id b
     \<and> (\<forall>ys c. run b' ys = Some c \<and> Unsubscribe sub \<notin> set ys \<longrightarrow>
           sub \<in> set (subscribers c)
           \<and> (\<forall>t d js. json_dumps d = Inr js \<longrightarrow>
                 (\<exists>c'. push c t d = Inr c'
                    \<and> mailbox c' sub =
                        (if length (mailbox c sub) < 512
                         then mailbox c sub @ [(next_id c, t, js)]
                         else mailbox c sub))))"
proof -
  from assms have inv: "bus_inv b" by (rule run_init_inv)
  then have len: "length (history b) \<le> 512"
    and ids: "map fst (history b) = [next_id b - int (length (history b)) .. next_id b - 1]"
    and fresh: "\<forall>r \<in> set (subscribers b). r < fresh b"
    by (simp_all add: bus_inv_def HISTORY_SIZE_def)
  let ?q = "\<lparr>maxsize = 512, items = filter (\<lambda>ev. k < fst ev) (history b)\<rparr>"
  let ?b' = "b\<lparr>subscribers := subscribers b @ [fresh b],
               queues := (queues b)(fresh b := Some ?q),
               fresh := Suc (fresh b)\<rparr>"
  have sub: "subscribe b k = Some (fresh b, ?b')"
    by (rule subscribe_Some [OF len])
  have mb: "mailbox ?b' (fresh b) = filter (\<lambda>ev. k < fst ev) (history b)"
    by (simp add: mailbox_def)
  have "map fst (filter (\<lambda>ev. k < fst ev) (history b)) = filter (\<lambda>x. k < x) (map fst (history b))"
    by (simp add: filter_map comp_def)
  with ids have asc: "map fst (mailbox ?b' (fresh b))
         = [max (k + 1) (next_id b - int (length (history b))) .. next_id b - 1]"
    by (simp add: mb filter_upto_gt)
  from fresh have new: "fresh b \<notin> set (subscribers b)" by auto
  from bus_inv_subscribe [OF inv sub] have inv': "bus_inv ?b'" .
  have live: "\<forall>ys c. run ?b' ys = Some c \<and> Unsubscribe (fresh b) \<notin> set ys \<longrightarrow>
           fresh b \<in> set (subscribers c)
           \<and> (\<forall>t d js. json_dumps d = Inr js \<longrightarrow>
                 (\<exists>c'. push c t d = Inr c'
                    \<and> mailbox c' (fresh b) =
                        (if length (mailbox c (fresh b)) < 512
                         then mailbox c (fresh b) @ [(next_id c, t, js)]
                         else mailbox c (fresh b))))"
  proof (intro allI impI, elim conjE)
    fix ys c
    assume run: "run ?b' ys = Some c" and no: "Unsubscribe (fresh b) \<notin> set ys"
    have "fresh b \<in> set (subscribers ?b')" by simp
    from run_keeps_subscriber [OF run no this] have reg: "fresh b \<in> set (subscribers c)" .
    from run_bus_inv [OF inv', of ys] run have invc: "bus_inv c" by simp
    have "\<forall>t d js. json_dumps d = Inr js \<longrightarrow>
                 (\<exists>c'. push c t d = Inr c'
                    \<and> mailbox c' (fresh b) =
                        (if length (mailbox c (fresh b)) < 512
                         then mailbox c (fresh b) @ [(next_id c, t, js)]
                         else mailbox c (fresh b)))"
    proof (intro allI impI)
      fix t d js
      assume js: "json_dumps d = Inr js"
      from push_effect [OF invc js, of t] obtain c' where "push c t d = Inr c'"
        and "\<forall>r \<in> set (subscribers c).
           mailbox c' r = (if 512 \<le> length (mailbox c r) then mailbox c r
                           else mailbox c r @ [(next_id c, t, js)])"
        by blast
      with reg show "\<exists>c'. push c t d = Inr c'
                    \<and> mailbox c' (fresh b) =
                        (if length (mailbox c (fresh b)) < 512
                         then mailbox c (fresh b) @ [(next_id c, t, js)]
                         else mailbox c (fresh b))"
        by (intro exI [of _ c']) auto
    qed
    with reg show "fresh b \<in> set (subscribers c)
           \<and> (\<forall>t d js. json_dumps d = Inr js \<longrightarrow>
                 (\<exists>c'. push c t d = Inr c'
                    \<and> mailbox c' (fresh b) =
                        (if length (mailbox c (fresh b)) < 512
                         then mailbox c (fresh b) @ [(next_id c, t, js)]
                         else mailbox c (fresh b))))"
      by blast
  qed
  from sub mb asc new live show ?thesis
    by (intro exI [of _ "fresh b"] exI [of _ ?b']) simp
qed

lemma json_dumps_PNone: "json_dumps PNone = Inr ''null''"
  by (simp add: json_dumps_def)

text \<open>Three publishes, then a subscription with cursor 1: the replay is records 2 and 3.\<close>

theorem subscribe_replays_witness:
  "(case run init_bus [Push ''a'' PNone, Push ''b'' PNone, Push ''c'' PNone] of
      None \<Rightarrow> False
    | Some b \<Rightarrow>
        (case subscribe b 1 of
           None \<Rightarrow> False
         | Some (sub, b') \<Rightarrow> mailbox b' sub = [(2, ''b'', ''null''), (3, ''c'', ''null'')]))"
proof -
  let ?xs = "[Push ''a'' PNone, Push ''b'' PNone, Push ''c'' PNone]"
  from run_history [of ?xs] obtain b where run: "run init_bus ?xs = Some b"
    and h: "history b = drop (length (records ?xs) - 200) (records ?xs)"
    by blast
  have "records ?xs = [(1, ''a'', ''null''), (2, ''b'', ''null''), (3, ''c'', ''null'')]"
    by (simp add: records_def json_dumps_PNone)
  with h have h': "history b = [(1, ''a'', ''null''), (2, ''b'', ''null''), (3, ''c'', ''null'')]"
    by simp
  from subscribe_replays [OF run, of 1] obtain sub b' where "subscribe b 1 = Some (sub, b')"
    and "mailbox b' sub = filter (\<lambda>ev. 1 < fst ev) (history b)"
    by blast
  with run h' show ?thesis by simp
qed

lemma overflow_state:
  "\<exists>c. run init_bus (Subscribe 0 # replicate 512 (Push ''status'' PNone)) = Some c
      \<and> bus_inv c \<and> subscribers c = [0] \<and> fresh c = 1 \<and> next_id c = 513
      \<and> map fst (mailbox c 0) = [1 .. 512]"
proof -
  let ?b1 = "init_bus\<lparr>subscribers := subscribers init_bus @ [fresh init_bus],
               queues := (queues init_bus)(fresh init_bus :=
                 Some \<lparr>maxsize = 512, items = filter (\<lambda>ev. 0 < fst ev) (history init_bus)\<rparr>),
               fresh := Suc (fresh init_bus)\<rparr>"
  have "length (history init_bus) \<le> 512" by (simp add: init_bus_def)
  from subscribe_Some [OF this, of 0] have sub: "subscribe init_bus 0 = Some (fresh init_bus, ?b1)" .
  from bus_inv_subscribe [OF bus_inv_init sub] have inv1: "bus_inv ?b1" .
  have r: "0 \<in> set (subscribers ?b1)" by (simp add: init_bus_def)
  have mb1: "mailbox ?b1 0 = []" by (simp add: init_bus_def mailbox_def)
  then have room: "length (mailbox ?b1 0) \<le> 512" by simp
  from run_pushes [OF inv1 json_dumps_PNone r room, of 512 "''status''"]
  obtain c where run: "run ?b1 (replicate 512 (Push ''status'' PNone)) = Some c"
    and invc: "bus_inv c" and subs: "subscribers c = subscribers ?b1"
    and nid: "next_id c = next_id ?b1 + 512"
    and fr: "fresh c = fresh ?b1"
    and mb: "mailbox c 0 = mailbox ?b1 0
          @ take (512 - length (mailbox ?b1 0)) (stamp (next_id ?b1) (replicate 512 (''status'', ''null'')))"
    by auto
  have runc: "run init_bus (Subscribe 0 # replicate 512 (Push ''status'' PNone)) = Some c"
    using sub run by simp
  have ids: "map fst (mailbox c 0) = [1 .. 512]"
    using mb mb1 by (simp add: init_bus_def map_fst_stamp)
  from runc invc subs nid fr ids show ?thesis
    by (intro exI [of _ c]) (simp add: init_bus_def)
qed

text \<open>
  Claim C1 as stated fails in its last part: a channel that subscribed to a new bus and
  was never read is full after 512 publishes. It is still registered, and the next
  publish, stamped 513, enters the history but not its mailbox.
\<close>

theorem full_mailbox_not_delivered:
  "(case run init_bus (Subscribe 0 # replicate 512 (Push ''status'' PNone)) of
      None \<Rightarrow> False
    | Some c \<Rightarrow>
        (case push c ''status'' PNone of
           Inl e \<Rightarrow> False
         | Inr c' \<Rightarrow>
             subscribers c = [0]
             \<and> last (history c') = (513, ''status'', ''null'')
             \<and> mailbox c' 0 = mailbox c 0
             \<and> (513, ''status'', ''null'') \<notin> set (mailbox c' 0)))"
proof -
  from overflow_state obtain c
    where runc: "run init_bus (Subscribe 0 # replicate 512 (Push ''status'' PNone)) = Some c"
    and invc: "bus_inv c" and subs0: "subscribers c = [0]" and nid0: "next_id c = 513"
    and ids: "map fst (mailbox c 0) = [1 .. 512]"
    by blast
  from ids have "length (map fst (mailbox c 0)) = 512" by simp
  then have len: "length (mailbox c 0) = 512" by simp
  have notin: "(513, ''status'', ''null'') \<notin> set (mailbox c 0)"
  proof
    assume "(513, ''status'', ''null'') \<in> set (mailbox c 0)"
    then have "fst (513 :: int, ''status'', ''null'') \<in> fst ` set (mailbox c 0)"
      by (rule imageI)
    then have "(513 :: int) \<in> set (map fst (mailbox c 0))"
      by simp
    with ids show False by simp
  qed
  from push_effect [OF invc json_dumps_PNone, of "''status''"] obtain c' where p: "push c ''status'' PNone = Inr c'"
    and l: "last (history c') = (next_id c, ''status'', ''null'')"
    and deliv: "\<forall>r \<in> set (subscribers c).
           mailbox c' r = (if 512 \<le> length (mailbox c r) then mailbox c r
                           else mailbox c r @ [(next_id c, ''status'', ''null'')])"
    by blast
  from deliv subs0 len have same: "mailbox c' 0 = mailbox c 0" by simp
  from runc p subs0 l nid0 same notin show ?thesis by simp
qed

lemma map_fst_records: "map fst (records xs) = [1 .. int (length (published xs))]"
  by (simp add: records_def map_fst_stamp)

text \<open>
  Claim C2. In every state an execution reaches, the history holds at most 200 records
  and is the list of all records published so far without its first
  \<open>total - 200\<close> elements: the most recent 200 once more than 200 were published, the
  oldest of them with id \<open>total - 200 + 1\<close>. The retained ids ascend strictly. A
  publish leaves a history of at most 200 records that ends with the new record and is
  a suffix of the old history extended by it: trimming only removes from the front.
\<close>

theorem history_bounded:
  assumes "run init_bus xs = Some b"
  shows "length (history b) \<le> HISTORY_SIZE
     \<and> history b = drop (length (records xs) - HISTORY_SIZE) (records xs)
     \<and> (HISTORY_SIZE < length (published xs) \<longrightarrow>
          length (history b) = HISTORY_SIZE
          \<and> fst (hd (history b)) = int (length (published xs)) - int HISTORY_SIZE + 1)
     \<and> sorted_wrt (<) (map fst (history b))
     \<and> (\<forall>t d js. json_dumps d = Inr js \<longrightarrow>
           (\<exists>b'. push b t d = Inr b'
              \<and> length (history b') \<le> HISTORY_SIZE
              \<and> last (history b') = (next_id b, t, js)
              \<and> suffix (history b') (history b @ [(next_id b, t, js)])))"
proof -
  from assms have inv: "bus_inv b" by (rule run_init_inv)
  from run_init_history [OF assms]
  have h: "history b = drop (length (records xs) - 200) (records xs)"
    and n: "next_id b = int (length (published xs)) + 1"
    by simp_all
  from inv have len: "length (history b) \<le> HISTORY_SIZE"
    and ids: "map fst (history b) = [next_id b - int (length (history b)) .. next_id b - 1]"
    by (simp_all add: bus_inv_def)
  have big: "HISTORY_SIZE < length (published xs) \<longrightarrow>
          length (history b) = HISTORY_SIZE
          \<and> fst (hd (history b)) = int (length (published xs)) - int HISTORY_SIZE + 1"
  proof
    assume more: "HISTORY_SIZE < length (published xs)"
    then have l: "length (history b) = 200"
      using h by (simp add: length_records HISTORY_SIZE_def)
    then have ne: "history b \<noteq> []" by auto
    have "fst (hd (history b)) = hd (map fst (history b))"
      using ne by (simp add: hd_map)
    also have "\<dots> = hd [next_id b - 200 .. next_id b - 1]"
      using ids l by simp
    also have "\<dots> = next_id b - 200"
      using more n by (subst upto_rec1) (simp_all add: HISTORY_SIZE_def)
    finally show "length (history b) = HISTORY_SIZE
          \<and> fst (hd (history b)) = int (length (published xs)) - int HISTORY_SIZE + 1"
      using l n by (simp add: HISTORY_SIZE_def)
  qed
  have "sorted_wrt (<) [next_id b - int (length (history b)) .. next_id b - 1]"
    by (rule sorted_wrt_upto)
  with ids have asc: "sorted_wrt (<) (map fst (history b))" by simp
  have trim: "\<forall>t d js. json_dumps d = Inr js \<longrightarrow>
           (\<exists>b'. push b t d = Inr b'
              \<and> length (history b') \<le> HISTORY_SIZE
              \<and> last (history b') = (next_id b, t, js)
              \<and> suffix (history b') (history b @ [(next_id b, t, js)]))"
  proof (intro allI impI)
    fix t d js
    assume js: "json_dumps d = Inr js"
    from push_effect [OF inv js, of t] obtain b' where "push b t d = Inr b'" "bus_inv b'"
      "last (history b') = (next_id b, t, js)"
      "suffix (history b') (history b @ [(next_id b, t, js)])"
      by blast
    then show "\<exists>b'. push b t d = Inr b'
              \<and> length (history b') \<le> HISTORY_SIZE
              \<and> last (history b') = (next_id b, t, js)
              \<and> suffix (history b') (history b @ [(next_id b, t, js)])"
      by (intro exI [of _ b']) (simp add: bus_inv_def)
  qed
  from len h big asc trim show ?thesis
    by (simp add: HISTORY_SIZE_def)
qed

text \<open>After 203 publishes the history holds 200 records, the oldest with id 4.\<close>

theorem history_bounded_witness:
  "(case run init_bus (replicate 203 (Push ''tick'' PNone)) of
      None \<Rightarrow> False
    | Some b \<Rightarrow> length (history b) = 200 \<and> fst (hd (history b)) = 4)"
proof -
  let ?xs = "replicate 203 (Push ''tick'' PNone)"
  from run_history [of ?xs] obtain b where run: "run init_bus ?xs = Some b"
    by blast
  have pub: "length (published ?xs) = 203"
    by (simp add: published_replicate [OF json_dumps_PNone])
  from history_bounded [OF run] have "HISTORY_SIZE < length (published ?xs) \<longrightarrow>
          length (history b) = HISTORY_SIZE
          \<and> fst (hd (history b)) = int (length (published ?xs)) - int HISTORY_SIZE + 1"
    by blast
  with pub have "length (history b) = 200 \<and> fst (hd (history b)) = 4"
    by (simp add: HISTORY_SIZE_def)
  with run show ?thesis by simp
qed

text \<open>
  Claim C3. After any execution in which \<open>n\<close> publishes went through, the next publish
  that goes through is stamped \<open>n + 1\<close>, whatever the producer passes (\<^verbatim>\<open>push\<close> takes a
  type and a payload, no id) and whatever else happened in between; the counter then
  stands at \<open>n + 2\<close>. Every retained id is below the new one, and the ids of all records
  ever stamped are \<open>1, 2, ..., n + 1\<close>.
\<close>

theorem ids_sequential:
  assumes "run init_bus xs = Some b" and "json_dumps d = Inr js"
  shows "\<exists>b'. push b t d = Inr b'
     \<and> next_id b = int (length (published xs)) + 1
     \<and> last (history b') = (int (length (published xs)) + 1, t, js)
     \<and> next_id b' = next_id b + 1
     \<and> (\<forall>ev \<in> set (history b). fst ev < next_id b)
     \<and> map fst (records (xs @ [Push t d])) = [1 .. int (length (published xs)) + 1]"
proof -
  from assms(1) have inv: "bus_inv b" by (rule run_init_inv)
  from run_init_history [OF assms(1)]
  have n: "next_id b = int (length (published xs)) + 1"
    by simp
  from inv have ids: "map fst (history b) = [next_id b - int (length (history b)) .. next_id b - 1]"
    by (simp add: bus_inv_def)
  have old: "\<forall>ev \<in> set (history b). fst ev < next_id b"
  proof
    fix ev assume "ev \<in> set (history b)"
    then have "fst ev \<in> set (map fst (history b))" by simp
    with ids show "fst ev < next_id b" by simp
  qed
  have all: "map fst (records (xs @ [Push t d])) = [1 .. int (length (published xs)) + 1]"
    using assms(2) by (simp add: map_fst_records published_append add.commute)
  from push_effect [OF inv assms(2), of t] obtain b' where "push b t d = Inr b'"
    "next_id b' = next_id b + 1" "last (history b') = (next_id b, t, js)"
    by blast
  with n old all show ?thesis
    by (intro exI [of _ b']) simp
qed

text \<open>
  One publish, one publish that fails to serialize (and takes no id), a subscription:
  the next publish is stamped 2.
\<close>

theorem ids_sequential_witness:
  "(case run init_bus [Push ''a'' PNone, Push ''bad'' (PDict [(PTuple [], PNone)]), Subscribe 0] of
      None \<Rightarrow> False
    | Some b \<Rightarrow>
        (case push b ''c'' PNone of
           Inl e \<Rightarrow> False
         | Inr b' \<Rightarrow> last (history b') = (2, ''c'', ''null'') \<and> next_id b' = 3))"
proof -
  let ?xs = "[Push ''a'' PNone, Push ''bad'' (PDict [(PTuple [], PNone)]), Subscribe 0]"
  from run_history [of ?xs] obtain b where run: "run init_bus ?xs = Some b"
    by blast
  have pub: "length (published ?xs) = 1"
    by (simp add: json_dumps_def)
  from ids_sequential [OF run json_dumps_PNone, of "''c''"] obtain b' where
    "push b ''c'' PNone = Inr b'"
    "next_id b = int (length (published ?xs)) + 1"
    "last (history b') = (int (length (published ?xs)) + 1, ''c'', ''null'')"
    "next_id b' = next_id b + 1"
    by blast
  with run pub show ?thesis by simp
qed

text \<open>
  The fan-out on its own. In every state an execution reaches, a publish whose payload
  serializes returns normally; its record ends the history; the registry is unchanged;
  and for each registered channel the mailbox is unchanged if it holds 512 records (or
  more) and is extended by the record otherwise.
\<close>

theorem push_skips_full_mailboxes:
  assumes "run init_bus xs = Some b" and "json_dumps d = Inr js"
  shows "\<exists>b'. push b t d = Inr b'
     \<and> last (history b') = (next_id b, t, js)
     \<and> subscribers b' = subscribers b
     \<and> (\<forall>r \<in> set (subscribers b).
           mailbox b' r = (if 512 \<le> length (mailbox b r) then mailbox b r
                           else mailbox b r @ [(next_id b, t, js)]))"
proof -
  from assms(1) have inv: "bus_inv b" by (rule run_init_inv)
  from push_effect [OF inv assms(2), of t] show ?thesis by blast
qed

text \<open>
  Channel 0 is full after 512 publishes, channel 1 subscribes then: the next publish is
  dropped for channel 0 only.
\<close>

theorem push_skips_full_mailboxes_witness:
  "(case run init_bus (Subscribe 0 # replicate 512 (Push ''status'' PNone) @ [Subscribe 600]) of
      None \<Rightarrow> False
    | Some b \<Rightarrow>
        (case push b ''status'' PNone of
           Inl e \<Rightarrow> False
         | Inr b' \<Rightarrow>
             subscribers b = [0, 1]
             \<and> length (mailbox b 0) = 512
             \<and> mailbox b' 0 = mailbox b 0
             \<and> mailbox b' 1 = mailbox b 1 @ [(513, ''status'', ''null'')]
             \<and> last (history b') = (513, ''status'', ''null'')))"
proof -
  let ?xs = "Subscribe 0 # replicate 512 (Push ''status'' PNone)"
  from overflow_state obtain c
    where runc: "run init_bus ?xs = Some c"
    and invc: "bus_inv c" and subs0: "subscribers c = [0]" and fr: "fresh c = 1" and nid0: "next_id c = 513"
    and ids: "map fst (mailbox c 0) = [1 .. 512]"
    by blast
  from ids have "length (map fst (mailbox c 0)) = 512" by simp
  then have len: "length (mailbox c 0) = 512" by simp
  from invc have hl: "length (history c) \<le> 200" by (simp add: bus_inv_def HISTORY_SIZE_def)
  let ?q = "\<lparr>maxsize = 512, items = filter (\<lambda>ev. 600 < fst ev) (history c)\<rparr>"
  let ?b = "c\<lparr>subscribers := subscribers c @ [fresh c],
              queues := (queues c)(fresh c := Some ?q),
              fresh := Suc (fresh c)\<rparr>"
  from hl have "length (history c) \<le> 512" by simp
  from subscribe_Some [OF this, of 600] have sub: "subscribe c 600 = Some (fresh c, ?b)" .
  have "run init_bus (?xs @ [Subscribe 600]) = Some ?b"
    using runc sub by (simp only: run_append) simp
  then have runb: "run init_bus (Subscribe 0 # replicate 512 (Push ''status'' PNone) @ [Subscribe 600]) = Some ?b"
    by simp
  have subs: "subscribers ?b = [0, 1]" using subs0 fr by simp
  have mb0: "mailbox ?b 0 = mailbox c 0" using fr by (simp add: mailbox_def)
  have "length (filter (\<lambda>ev. 600 < fst ev) (history c)) \<le> 200"
    using le_trans [OF length_filter_le hl] .
  then have mb1: "length (mailbox ?b 1) < 512" using fr by (simp add: mailbox_def)
  have nid: "next_id ?b = 513" using nid0 by simp
  from push_skips_full_mailboxes [OF runb json_dumps_PNone, of "''status''"]
  obtain b' where p: "push ?b ''status'' PNone = Inr b'"
    and l: "last (history b') = (next_id ?b, ''status'', ''null'')"
    and deliv: "\<forall>r \<in> set (subscribers ?b).
           mailbox b' r = (if 512 \<le> length (mailbox ?b r) then mailbox ?b r
                           else mailbox ?b r @ [(next_id ?b, ''status'', ''null'')])"
    by blast
  from deliv subs have d0: "mailbox b' 0 = (if 512 \<le> length (mailbox ?b 0) then mailbox ?b 0
                           else mailbox ?b 0 @ [(next_id ?b, ''status'', ''null'')])"
    and d1: "mailbox b' 1 = (if 512 \<le> length (mailbox ?b 1) then mailbox ?b 1
                           else mailbox ?b 1 @ [(next_id ?b, ''status'', ''null'')])"
    by simp_all
  from d0 mb0 len have same: "mailbox b' 0 = mailbox ?b 0" by simp
  from d1 mb1 nid have app: "mailbox b' 1 = mailbox ?b 1 @ [(513, ''status'', ''null'')]" by simp
  have len': "length (mailbox ?b 0) = 512" using mb0 len by simp
  from l nid have l': "last (history b') = (513, ''status'', ''null'')" by simp
  show ?thesis
    unfolding runb option.case p sum.case
    using subs len' same app l' by blast
qed

text \<open>
  Claim C5. The specification asks that a publish with a full subscriber still succeeds
  and reaches the history. The fan-out passes over \<^verbatim>\<open>queue.Full\<close> as asked, but the
  serialization that precedes it is outside any \<^verbatim>\<open>try\<close>: with channel 0 registered and
  full (512 pending records), a publish whose payload has a tuple key raises
  \<^verbatim>\<open>TypeError\<close> to the producer, and nothing is appended or delivered.
\<close>

theorem push_full_mailbox_tuple_key_raises:
  "(case run init_bus (Subscribe 0 # replicate 512 (Push ''status'' PNone)) of
      None \<Rightarrow> False
    | Some c \<Rightarrow>
        subscribers c = [0]
        \<and> length (mailbox c 0) = 512
        \<and> push c ''chart'' (PDict [(PTuple [PInt 1, PInt 2], PStr ''x'')]) = Inl TypeError)"
proof -
  from overflow_state obtain c
    where runc: "run init_bus (Subscribe 0 # replicate 512 (Push ''status'' PNone)) = Some c"
    and subs0: "subscribers c = [0]"
    and ids: "map fst (mailbox c 0) = [1 .. 512]"
    by blast
  from ids have "length (map fst (mailbox c 0)) = 512" by simp
  then have len: "length (mailbox c 0) = 512" by simp
  have "json_dumps (PDict [(PTuple [PInt 1, PInt 2], PStr ''x'')]) = Inl TypeError"
    by (simp add: json_dumps_def)
  then have "push c ''chart'' (PDict [(PTuple [PInt 1, PInt 2], PStr ''x'')]) = Inl TypeError"
    by (rule push_Inl)
  with runc subs0 len show ?thesis by simp
qed

lemma delivery_loop_inv:
  "bus_inv b \<Longrightarrow> delivery_loop sub b steps out = Some (ex, b2, out') \<Longrightarrow> bus_inv b2"
proof (induction steps arbitrary: b out)
  case Nil
  then show ?case by simp
next
  case (Cons st steps)
  from run_bus_inv [OF Cons.prems(1), of "fst st"] obtain b1
    where run: "run b (fst st) = Some b1" and inv1: "bus_inv b1"
    by blast
  show ?case
  proof (cases "queue_get b1 sub")
    case None
    show ?thesis
    proof (cases "snd st")
      case n: None
      with Cons.prems(2) run None have "delivery_loop sub b1 steps (out @ [Keepalive]) = Some (ex, b2, out')"
        by simp
      from Cons.IH [OF inv1 this] show ?thesis .
    next
      case (Some e)
      with Cons.prems(2) run None have "b2 = b1"
        by (simp split: if_splits)
      with inv1 show ?thesis by simp
    qed
  next
    case (Some a)
    then obtain ev b1' where g: "queue_get b1 sub = Some (ev, b1')" by (cases a) simp
    from bus_inv_queue_get [OF inv1 g] have inv1': "bus_inv b1'" .
    show ?thesis
    proof (cases "snd st")
      case None
      with Cons.prems(2) run g have "delivery_loop sub b1' steps (out @ [Event_frame ev]) = Some (ex, b2, out')"
        by simp
      from Cons.IH [OF inv1' this] show ?thesis .
    next
      case s: (Some e)
      with Cons.prems(2) run g have "b2 = b1'"
        by (simp split: if_splits)
      with inv1' show ?thesis by simp
    qed
  qed
qed

lemma delivery_loop_exits:
  "bus_inv b \<Longrightarrow> \<exists>st \<in> set steps. snd st \<noteq> None \<Longrightarrow> delivery_loop sub b steps out \<noteq> None"
proof (induction steps arbitrary: b out)
  case Nil
  then show ?case by simp
next
  case (Cons st steps)
  from run_bus_inv [OF Cons.prems(1), of "fst st"] obtain b1
    where run: "run b (fst st) = Some b1" and inv1: "bus_inv b1"
    by blast
  show ?case
  proof (cases "snd st")
    case (Some e)
    with run show ?thesis
      by (cases "queue_get b1 sub") auto
  next
    case None
    with Cons.prems(2) have later: "\<exists>st \<in> set steps. snd st \<noteq> None" by auto
    show ?thesis
    proof (cases "queue_get b1 sub")
      case n: None
      with Cons.IH [OF inv1 later, of "out @ [Keepalive]"] run None show ?thesis by simp
    next
      case (Some a)
      then obtain ev b1' where g: "queue_get b1 sub = Some (ev, b1')" by (cases a) simp
      from bus_inv_queue_get [OF inv1 g] have "bus_inv b1'" .
      from Cons.IH [OF this later, of "out @ [Event_frame ev]"] run None g show ?thesis by simp
    qed
  qed
qed

text \<open>
  Claim C9. Started in any state an execution reaches, the handler subscribes a channel;
  whenever it exits, by \<^verbatim>\<open>break\<close> after a broken pipe or a reset connection or by any
  other exception passing through, the channel is no longer in the registry; and it
  does exit as soon as a write raises.
\<close>

theorem serve_sse_unsubscribes:
  assumes "run init_bus xs = Some b"
  shows "\<exists>sub b1. subscribe b last_id = Some (sub, b1)
     \<and> sub \<in> set (subscribers b1)
     \<and> (\<forall>ex b' out. serve_sse b last_id steps = Some (ex, b', out) \<longrightarrow>
           sub \<notin> set (subscribers b'))
     \<and> ((\<exists>st \<in> set steps. snd st \<noteq> None) \<longrightarrow> serve_sse b last_id steps \<noteq> None)"
proof -
  from assms have inv: "bus_inv b" by (rule run_init_inv)
  then have "length (history b) \<le> 512" by (simp add: bus_inv_def HISTORY_SIZE_def)
  from subscribe_Some [OF this, of last_id] obtain b1 where sub: "subscribe b last_id = Some (fresh b, b1)"
    by simp
  from bus_inv_subscribe [OF inv sub] have inv1: "bus_inv b1" .
  from subscribe_subscribers [OF sub] have reg: "fresh b \<in> set (subscribers b1)" by simp
  have gone: "\<forall>ex b' out. serve_sse b last_id steps = Some (ex, b', out) \<longrightarrow>
           fresh b \<notin> set (subscribers b')"
  proof (intro allI impI)
    fix ex b' out
    assume "serve_sse b last_id steps = Some (ex, b', out)"
    with sub obtain b2 where loop: "delivery_loop (fresh b) b1 steps [] = Some (ex, b2, out)"
      and b': "b' = unsubscribe b2 (fresh b)"
      by (auto simp: serve_sse_def split: option.splits)
    from delivery_loop_inv [OF inv1 loop] have "distinct (subscribers b2)"
      by (simp add: bus_inv_def)
    then show "fresh b \<notin> set (subscribers b')"
      by (simp add: b' subscribers_unsubscribe)
  qed
  have exits: "(\<exists>st \<in> set steps. snd st \<noteq> None) \<longrightarrow> serve_sse b last_id steps \<noteq> None"
  proof
    assume "\<exists>st \<in> set steps. snd st \<noteq> None"
    from delivery_loop_exits [OF inv1 this, of "fresh b" "[]"] sub
    show "serve_sse b last_id steps \<noteq> None"
      by (auto simp: serve_sse_def split: option.splits)
  qed
  from sub reg gone exits show ?thesis by blast
qed

text \<open>
  An event is delivered, then the pipe breaks: the handler returns and the registry is
  empty. Another exception on the first write leaves the handler, the registry empty too.
\<close>

theorem serve_sse_unsubscribes_witness:
  "(case serve_sse init_bus 0 [([Push ''a'' PNone], None), ([], Some BrokenPipeError)] of
      None \<Rightarrow> False
    | Some (ex, b', out) \<Rightarrow>
        ex = Returned \<and> subscribers b' = [] \<and> out = [Event_frame (1, ''a'', ''null'')])
   \<and> (case serve_sse init_bus 0 [([], Some ValueError)] of
      None \<Rightarrow> False
    | Some (ex, b', out) \<Rightarrow> ex = Raised ValueError \<and> subscribers b' = [] \<and> out = [])"
proof -
  let ?steps = "[([Push ''a'' PNone], None), ([], Some BrokenPipeError)]"
  have run: "run init_bus [] = Some init_bus" by simp
  have sub: "subscribe init_bus 0 = Some (0, init_bus\<lparr>subscribers := [0],
       queues := (queues init_bus)(0 := Some \<lparr>maxsize = 512, items = []\<rparr>), fresh := Suc 0\<rparr>)"
    by (simp add: subscribe_def init_bus_def Queue_def)
  from serve_sse_unsubscribes [OF run, of 0 ?steps] sub
  have gone: "\<forall>ex b' out. serve_sse init_bus 0 ?steps = Some (ex, b', out) \<longrightarrow> 0 \<notin> set (subscribers b')"
    and exits: "serve_sse init_bus 0 ?steps \<noteq> None"
    by auto
  have first: "\<exists>b'. serve_sse init_bus 0 ?steps = Some (Returned, b', [Event_frame (1, ''a'', ''null'')])
       \<and> subscribers b' = []"
    by (simp only: serve_sse_def sub option.case prod.case)
       (simp add: push_def json_dumps_def Let_def init_bus_def HISTORY_SIZE_def
          try_put_def put_nowait_def full_def queue_get_def get_def disconnected_def
          unsubscribe_def list_remove_def)
  have second: "\<exists>b'. serve_sse init_bus 0 [([], Some ValueError)] = Some (Raised ValueError, b', [])
       \<and> subscribers b' = []"
    by (simp only: serve_sse_def sub option.case prod.case)
       (simp add: init_bus_def queue_get_def get_def disconnected_def
          unsubscribe_def list_remove_def)
  from first second gone exits show ?thesis by auto
qed

section \<open>Publishing\<close>

text \<open>
  The fallback \<^verbatim>\<open>default=str\<close> at work: a value of an unknown class is serialized as the
  string \<^verbatim>\<open>str()\<close> gives for it.
\<close>

lemma json_dumps_object_value:
  "json_dumps (PDict [(PStr ''when'', PObject ''2024-01-01'')])
     = Inr (''{'' @ encode_str ''when'' @ '': '' @ encode_str ''2024-01-01'' @ ''}'')"
  by (simp add: json_dumps_def)

text \<open>
  Claim C4. The specification asks that \<^verbatim>\<open>push\<close> never raises, whatever the payload: a
  serialization failure is to be absorbed. The code passes \<^verbatim>\<open>default=str\<close>, which covers
  values of unknown classes, but a dictionary key that is a tuple is not covered, and
  nothing catches the \<^verbatim>\<open>TypeError\<close>: it leaves \<^verbatim>\<open>push\<close> and \<^verbatim>\<open>push_event\<close>.
\<close>

theorem push_event_tuple_key_raises:
  "push_event init_bus ''chart'' (PDict [(PTuple [PInt 1, PInt 2], PStr ''x'')]) = Inl TypeError"
  by (simp add: push_event_def push_def json_dumps_def)

section \<open>Routing\<close>

text \<open>
  The routing in full: \<^verbatim>\<open>do_GET\<close> sends not-found exactly for the paths that are neither
  \<^verbatim>\<open>/\<close> nor \<^verbatim>\<open>/index.html\<close> and do not begin with \<^verbatim>\<open>/events\<close>; it calls \<^verbatim>\<open>_serve_sse\<close>
  exactly for the paths that begin with \<^verbatim>\<open>/events\<close>, and \<^verbatim>\<open>_serve_html\<close> exactly for the two
  page paths.
\<close>

theorem do_GET_routes:
  "(do_GET path = Send_error_NOT_FOUND)
     = (path \<noteq> ''/'' \<and> path \<noteq> ''/index.html'' \<and> \<not> prefix ''/events'' path)
   \<and> (do_GET path = Serve_sse) = prefix ''/events'' path
   \<and> (do_GET path = Serve_html) = (path = ''/'' \<or> path = ''/index.html'')"
  by (auto simp: do_GET_def)

theorem do_GET_routes_witness:
  "do_GET ''/favicon.ico'' = Send_error_NOT_FOUND \<and> do_GET ''/events?last_event_id=7'' = Serve_sse"
  using do_GET_routes [of "''/favicon.ico''"] do_GET_routes [of "''/events?last_event_id=7''"]
  by simp

text \<open>
  Claim C8. The specification asks for a not-found response at every path other than
  the page paths and the stream endpoint \<^verbatim>\<open>/events[?...]\<close>, and the handler's docstring
  names \<^verbatim>\<open>/events\<close>. The page branch compares the whole path, the stream branch only a
  prefix: \<^verbatim>\<open>/eventsfoo\<close> is neither a page path nor the stream endpoint, and \<^verbatim>\<open>do_GET\<close>
  hands it to \<^verbatim>\<open>_serve_sse\<close> instead of sending not-found.
\<close>

theorem do_GET_eventsfoo_served:
  "''/eventsfoo'' \<noteq> ''/'' \<and> ''/eventsfoo'' \<noteq> ''/index.html''
   \<and> \<not> spec_stream_endpoint ''/eventsfoo''
   \<and> do_GET ''/eventsfoo'' = Serve_sse
   \<and> do_GET ''/eventsfoo'' \<noteq> Send_error_NOT_FOUND"
  by (simp add: do_GET_def spec_stream_endpoint_def)

section \<open>Starting the server\<close>

lemma try_ports_all_fail:
  "\<forall>p \<in> set ps. \<exists>e. bind (''127.0.0.1'', p) = Some e \<and> isinstance_OSError e \<Longrightarrow>
   try_ports bind s ps = (Inr None, s\<lparr>attempts := attempts s @ map (Pair ''127.0.0.1'') ps\<rparr>)"
proof (induction ps arbitrary: s)
  case Nil
  show ?case by simp
next
  case (Cons p ps)
  from Cons.prems obtain e where e: "bind (''127.0.0.1'', p) = Some e" "isinstance_OSError e"
    by auto
  from Cons.prems have rest: "\<forall>p \<in> set ps. \<exists>e. bind (''127.0.0.1'', p) = Some e \<and> isinstance_OSError e"
    by simp
  show ?case
    using e Cons.IH [OF rest] by (simp add: Let_def)
qed

lemma try_ports_success:
  "try_ports bind s ps = (Inr (Some p), s') \<Longrightarrow>
   \<exists>pre post. ps = pre @ p # post
     \<and> (\<forall>x \<in> set pre. \<exists>e. bind (''127.0.0.1'', x) = Some e \<and> isinstance_OSError e)
     \<and> bind (''127.0.0.1'', p) = None
     \<and> attempts s' = attempts s @ map (Pair ''127.0.0.1'') (pre @ [p])
     \<and> server s' = Some (''127.0.0.1'', p)
     \<and> port s' = p
     \<and> listeners s' = listeners s @ [(''127.0.0.1'', p)]
     \<and> threads s' = threads s @ [(''127.0.0.1'', p)]
     \<and> timers s' = timers s @ [''http://127.0.0.1:'' @ int_repr p]"
proof (induction ps arbitrary: s)
  case Nil
  then show ?case by simp
next
  case (Cons x xs)
  let ?s1 = "s\<lparr>attempts := attempts s @ [(''127.0.0.1'', x)]\<rparr>"
  show ?case
  proof (cases "bind (''127.0.0.1'', x)")
    case None
    with Cons.prems have "x # xs = [] @ p # xs
     \<and> (\<forall>y \<in> set []. \<exists>e. bind (''127.0.0.1'', y) = Some e \<and> isinstance_OSError e)
     \<and> bind (''127.0.0.1'', p) = None
     \<and> attempts s' = attempts s @ map (Pair ''127.0.0.1'') ([] @ [p])
     \<and> server s' = Some (''127.0.0.1'', p)
     \<and> port s' = p
     \<and> listeners s' = listeners s @ [(''127.0.0.1'', p)]
     \<and> threads s' = threads s @ [(''127.0.0.1'', p)]
     \<and> timers s' = timers s @ [''http://127.0.0.1:'' @ int_repr p]"
      by (auto simp: Let_def)
    then show ?thesis by blast
  next
    case (Some e)
    with Cons.prems have os: "isinstance_OSError e" and rec: "try_ports bind ?s1 xs = (Inr (Some p), s')"
      by (auto simp: Let_def split: if_splits)
    from Cons.IH [OF rec] obtain pre post where
      "xs = pre @ p # post"
      "\<forall>y \<in> set pre. \<exists>e. bind (''127.0.0.1'', y) = Some e \<and> isinstance_OSError e"
      "bind (''127.0.0.1'', p) = None"
      "attempts s' = attempts ?s1 @ map (Pair ''127.0.0.1'') (pre @ [p])"
      "server s' = Some (''127.0.0.1'', p)"
      "port s' = p"
      "listeners s' = listeners ?s1 @ [(''127.0.0.1'', p)]"
      "threads s' = threads ?s1 @ [(''127.0.0.1'', p)]"
      "timers s' = timers ?s1 @ [''http://127.0.0.1:'' @ int_repr p]"
      by blast
    with Some os have "x # xs = (x # pre) @ p # post
     \<and> (\<forall>y \<in> set (x # pre). \<exists>e. bind (''127.0.0.1'', y) = Some e \<and> isinstance_OSError e)
     \<and> bind (''127.0.0.1'', p) = None
     \<and> attempts s' = attempts s @ map (Pair ''127.0.0.1'') ((x # pre) @ [p])
     \<and> server s' = Some (''127.0.0.1'', p)
     \<and> port s' = p
     \<and> listeners s' = listeners s @ [(''127.0.0.1'', p)]
     \<and> threads s' = threads s @ [(''127.0.0.1'', p)]
     \<and> timers s' = timers s @ [''http://127.0.0.1:'' @ int_repr p]"
      by simp
    then show ?thesis by blast
  qed
qed

lemma start_calls_started:
  "server s \<noteq> None \<Longrightarrow> start_calls s cs = (replicate (length cs) (Inr (Some (port s))), s)"
  by (induction cs) (simp_all add: start_def Let_def)

text \<open>
  Claim C6. After a call of \<^verbatim>\<open>start\<close> that started the server and returned the port
  \<open>p\<close>, every further call, whatever its arguments and whatever ports are free, returns
  \<open>p\<close> and leaves the globals and the record of bind attempts, listeners, threads and
  timers as they were.
\<close>

theorem start_idempotent:
  assumes "server s = None" and "start bind s port_start port_end = (Inr (Some p), s')"
  shows "start_calls s' cs = (replicate (length cs) (Inr (Some p)), s')"
proof -
  from assms have "try_ports bind s [port_start .. port_end] = (Inr (Some p), s')"
    by (simp add: start_def)
  from try_ports_success [OF this] have "server s' \<noteq> None" "port s' = p"
    by auto
  with start_calls_started [of s' cs] show ?thesis by simp
qed

theorem start_idempotent_witness:
  "server init_lifecycle = None
   \<and> fst (start (\<lambda>a. if snd a < 5113 then Some OSError else None) init_lifecycle 5111 5130)
       = Inr (Some 5113)
   \<and> start_calls (snd (start (\<lambda>a. if snd a < 5113 then Some OSError else None) init_lifecycle 5111 5130))
        [(\<lambda>a. None, 5111, 5130), (\<lambda>a. Some OSError, 6000, 6001)]
       = ([Inr (Some 5113), Inr (Some 5113)],
          snd (start (\<lambda>a. if snd a < 5113 then Some OSError else None) init_lifecycle 5111 5130))"
proof -
  let ?bind = "\<lambda>a :: address. if snd a < 5113 then Some OSError else None"
  let ?s' = "snd (start ?bind init_lifecycle 5111 5130)"
  have none: "server init_lifecycle = None"
    by (simp add: init_lifecycle_def)
  have fst: "fst (start ?bind init_lifecycle 5111 5130) = Inr (Some 5113)"
    by (simp add: start_def init_lifecycle_def upto_rec1 Let_def)
  then have st: "start ?bind init_lifecycle 5111 5130 = (Inr (Some 5113), ?s')"
    by (simp add: prod_eq_iff)
  from start_idempotent [OF none st, of "[(\<lambda>a. None, 5111, 5130), (\<lambda>a. Some OSError, 6000, 6001)]"]
  show ?thesis using none fst by simp
qed

text \<open>
  The exhaustion the loop does handle. From the unstarted state, when the constructor
  raises \<^verbatim>\<open>OSError\<close> (the port is in use) for every port of the range, \<^verbatim>\<open>start\<close> returns
  \<^verbatim>\<open>None\<close>, having tried each port of the range once, in ascending order, and changed
  nothing else.
\<close>

theorem start_exhausted:
  assumes "server s = None"
    and "\<forall>p \<in> set [port_start .. port_end].
           \<exists>e. bind (''127.0.0.1'', p) = Some e \<and> isinstance_OSError e"
  shows "start bind s port_start port_end =
           (Inr None, s\<lparr>attempts := attempts s @ map (Pair ''127.0.0.1'') [port_start .. port_end]\<rparr>)"
  using assms by (simp add: start_def try_ports_all_fail)

theorem start_exhausted_witness:
  "start (\<lambda>a. Some OSError) init_lifecycle 5111 5113 =
     (Inr None,
      init_lifecycle\<lparr>attempts :=
        [(''127.0.0.1'', 5111), (''127.0.0.1'', 5112), (''127.0.0.1'', 5113)]\<rparr>)"
  using start_exhausted [of init_lifecycle 5111 5113 "\<lambda>a. Some OSError"]
  by (simp add: init_lifecycle_def upto_rec1)

text \<open>
  Claim C7. The specification, like the docstring of \<^verbatim>\<open>start\<close> (\<^verbatim>\<open>None\<close> if all ports
  failed), asks for \<^verbatim>\<open>None\<close> whenever no port of the range can be bound. Only \<^verbatim>\<open>OSError\<close>
  is caught: in the range 70000 to 70001 no port can be bound, and the \<^verbatim>\<open>OverflowError\<close>
  of the first attempt leaves \<^verbatim>\<open>start\<close>; so does the one for port 65536 after port 65535
  was found in use.
\<close>

theorem start_out_of_range_raises:
  "socket_bind {} (''127.0.0.1'', 70000) \<noteq> None
   \<and> socket_bind {} (''127.0.0.1'', 70001) \<noteq> None
   \<and> start (socket_bind {}) init_lifecycle 70000 70001
       = (Inl OverflowError, init_lifecycle\<lparr>attempts := [(''127.0.0.1'', 70000)]\<rparr>)
   \<and> socket_bind {65535} (''127.0.0.1'', 65535) \<noteq> None
   \<and> socket_bind {65535} (''127.0.0.1'', 65536) \<noteq> None
   \<and> start (socket_bind {65535}) init_lifecycle 65535 65536
       = (Inl OverflowError,
          init_lifecycle\<lparr>attempts := [(''127.0.0.1'', 65535), (''127.0.0.1'', 65536)]\<rparr>)"
  by (simp add: start_def socket_bind_def init_lifecycle_def upto_rec1 Let_def)

text \<open>
  Claim C10. A call of \<^verbatim>\<open>start\<close> that starts the server on port \<open>p\<close> binds the one
  listener to the loopback address \<^verbatim>\<open>127.0.0.1\<close>, port \<open>p\<close>; every address it tried is
  on \<^verbatim>\<open>127.0.0.1\<close>, and the URL handed to the browser is on \<^verbatim>\<open>127.0.0.1\<close> too.
\<close>

theorem start_binds_loopback:
  assumes "server s = None" and "start bind s port_start port_end = (Inr (Some p), s')"
  shows "server s' = Some (''127.0.0.1'', p)
       \<and> listeners s' = listeners s @ [(''127.0.0.1'', p)]
       \<and> threads s' = threads s @ [(''127.0.0.1'', p)]
       \<and> timers s' = timers s @ [''http://127.0.0.1:'' @ int_repr p]
       \<and> (\<exists>ps. attempts s' = attempts s @ map (Pair ''127.0.0.1'') ps)"
proof -
  from assms have "try_ports bind s [port_start .. port_end] = (Inr (Some p), s')"
    by (simp add: start_def)
  from try_ports_success [OF this] show ?thesis
    by blast
qed

theorem start_binds_loopback_witness:
  "server init_lifecycle = None
   \<and> fst (start (\<lambda>a. if snd a < 5112 then Some OSError else None) init_lifecycle 5111 5130)
       = Inr (Some 5112)
   \<and> server (snd (start (\<lambda>a. if snd a < 5112 then Some OSError else None) init_lifecycle 5111 5130))
       = Some (''127.0.0.1'', 5112)
   \<and> listeners (snd (start (\<lambda>a. if snd a < 5112 then Some OSError else None) init_lifecycle 5111 5130))
       = [(''127.0.0.1'', 5112)]"
proof -
  let ?bind = "\<lambda>a :: address. if snd a < 5112 then Some OSError else None"
  let ?s' = "snd (start ?bind init_lifecycle 5111 5130)"
  have none: "server init_lifecycle = None"
    by (simp add: init_lifecycle_def)
  have fst: "fst (start ?bind init_lifecycle 5111 5130) = Inr (Some 5112)"
    by (simp add: start_def init_lifecycle_def upto_rec1 Let_def)
  then have st: "start ?bind init_lifecycle 5111 5130 = (Inr (Some 5112), ?s')"
    by (simp add: prod_eq_iff)
  from start_binds_loopback [OF none st]
  have "server ?s' = Some (''127.0.0.1'', 5112)"
    and "listeners ?s' = listeners init_lifecycle @ [(''127.0.0.1'', 5112)]"
    by blast+
  then show ?thesis using none fst by (simp add: init_lifecycle_def)
qed

end
